theory Spec2Isabelle
  imports Main "HOL-Library.AList"
begin

section \<open>Python values used by conll2000.py\<close>

text \<open>
  A Python \<open>dict\<close> keeps its keys in insertion order, and \<open>sorted\<close> reads that order,
  so a dictionary is an association list with distinct keys: storing under an existing
  key overwrites the value in place, storing under a new key appends at the end.
  \<open>d[k]\<close> on a missing key raises \<open>KeyError\<close> (a \<open>LookupError\<close>), as does indexing a
  list out of range (\<open>IndexError\<close>).
\<close>

datatype py_error = KeyError | IndexError

type_synonym ('k, 'v) dict = "('k \<times> 'v) list"

definition dict_get :: "('k, 'v) dict \<Rightarrow> 'k \<Rightarrow> 'v \<Rightarrow> 'v" where
  "dict_get d k dflt = (case map_of d k of None \<Rightarrow> dflt | Some v \<Rightarrow> v)"

definition dict_set :: "'k \<Rightarrow> 'v \<Rightarrow> ('k, 'v) dict \<Rightarrow> ('k, 'v) dict" where
  "dict_set k v d = AList.update k v d"

definition dict_index :: "('k, 'v) dict \<Rightarrow> 'k \<Rightarrow> py_error + 'v" where
  "dict_index d k = (case map_of d k of None \<Rightarrow> Inl KeyError | Some v \<Rightarrow> Inr v)"

text \<open>
  \<open>sorted(xs, key=f, reverse=True)\<close>: CPython reverses the list, sorts it with its stable
  ascending sort and reverses the result, which keeps elements with equal keys in their
  original order.
\<close>

definition sorted_reverse :: "('a \<Rightarrow> 'k::linorder) \<Rightarrow> 'a list \<Rightarrow> 'a list" where
  "sorted_reverse f xs = rev (sort_key f (rev xs))"

text \<open>A list comprehension whose element expression may raise: the first error wins.\<close>

fun map_result :: "('a \<Rightarrow> py_error + 'b) \<Rightarrow> 'a list \<Rightarrow> py_error + 'b list" where
  "map_result f [] = Inr []"
| "map_result f (x # xs) =
     (case f x of
        Inl e \<Rightarrow> Inl e
      | Inr y \<Rightarrow> (case map_result f xs of Inl e \<Rightarrow> Inl e | Inr ys \<Rightarrow> Inr (y # ys)))"

section \<open>\<open>CONLL2000._sentences_to_ints\<close>\<close>

text \<open>
  The tokens are Python strings; \<open>str.lower\<close> is the parameter \<open>lower\<close>, so every result
  holds for whatever case folding the interpreter performs.

  Counting pass (lines 243 to 248): one dictionary update per token, in reading order.
\<close>

definition count_word :: "('a \<Rightarrow> 'a) \<Rightarrow> bool \<Rightarrow> 'a \<Rightarrow> ('a, nat) dict \<Rightarrow> ('a, nat) dict" where
  "count_word lower lowercase w w_dict =
     (let w' = (if lowercase then lower w else w)
      in dict_set w' (dict_get w_dict w' 0 + 1) w_dict)"

definition count_words :: "('a \<Rightarrow> 'a) \<Rightarrow> bool \<Rightarrow> 'a list list \<Rightarrow> ('a, nat) dict" where
  "count_words lower lowercase texts =
     fold (\<lambda>sen w_dict. fold (count_word lower lowercase) sen w_dict) texts []"

text \<open>Ranking (lines 249 to 251): enumerate the items sorted by count, descending.\<close>

definition int_to_word :: "('a, nat) dict \<Rightarrow> (nat \<times> 'a) list" where
  "int_to_word w_dict =
     map (\<lambda>(i, word). (i, fst word)) (enumerate 0 (sorted_reverse snd w_dict))"

definition make_vocab :: "(nat \<times> 'a) list \<Rightarrow> ('a, nat) dict" where
  "make_vocab itw = fold (\<lambda>(i, w) vocab. dict_set w i vocab) itw []"

text \<open>Id-mapping pass (lines 252 and 253): \<open>vocab[...]\<close> raises on a missing key.\<close>

definition lookup_word :: "('a \<Rightarrow> 'a) \<Rightarrow> bool \<Rightarrow> ('a, nat) dict \<Rightarrow> 'a \<Rightarrow> py_error + nat" where
  "lookup_word lower lowercase vocab w =
     (if lowercase then dict_index vocab (lower w) else dict_index vocab w)"

definition map_ids ::
  "('a \<Rightarrow> 'a) \<Rightarrow> bool \<Rightarrow> ('a, nat) dict \<Rightarrow> 'a list list \<Rightarrow> py_error + nat list list" where
  "map_ids lower lowercase vocab texts =
     map_result (\<lambda>sen. map_result (lookup_word lower lowercase vocab) sen) texts"

definition sentences_to_ints ::
  "('a \<Rightarrow> 'a) \<Rightarrow> 'a list list \<Rightarrow> bool \<Rightarrow> py_error + (nat list list \<times> ('a, nat) dict)" where
  "sentences_to_ints lower texts lowercase =
     (let w_dict = count_words lower lowercase texts;
          vocab = make_vocab (int_to_word w_dict)
      in case map_ids lower lowercase vocab texts of
           Inl e \<Rightarrow> Inl e
         | Inr ids \<Rightarrow> Inr (ids, vocab))"

text \<open>
  Vocabulary of a run, for stating properties: the token stream after case folding, the
  position at which a token is first met, and ASCII lower-casing for concrete runs.
\<close>

definition token_stream :: "('a \<Rightarrow> 'a) \<Rightarrow> bool \<Rightarrow> 'a list list \<Rightarrow> 'a list" where
  "token_stream lower lowercase texts =
     map (\<lambda>w. if lowercase then lower w else w) (concat texts)"

definition first_index :: "'a list \<Rightarrow> 'a \<Rightarrow> nat" where
  "first_index xs x = length (takeWhile (\<lambda>y. y \<noteq> x) xs)"

definition ascii_lower_char :: "char \<Rightarrow> char" where
  "ascii_lower_char c =
     (let n = (of_char c :: nat)
      in if 65 \<le> n \<and> n \<le> 90 then char_of (n + 32) else c)"

definition ascii_lower :: "string \<Rightarrow> string" where
  "ascii_lower w = map ascii_lower_char w"

text \<open>
  Names for stating the ranking: one counting step on an already folded token, the
  vocabulary the function builds before the id-mapping pass, and the order "more
  occurrences first, among equals the one met first".
\<close>

definition bump :: "'a \<Rightarrow> ('a, nat) dict \<Rightarrow> ('a, nat) dict" where
  "bump w d = dict_set w (dict_get d w 0 + 1) d"

definition built_vocab :: "('a \<Rightarrow> 'a) \<Rightarrow> bool \<Rightarrow> 'a list list \<Rightarrow> ('a, nat) dict" where
  "built_vocab lower lowercase texts = make_vocab (int_to_word (count_words lower lowercase texts))"

definition ranked_before :: "'a list \<Rightarrow> 'a \<Rightarrow> 'a \<Rightarrow> bool" where
  "ranked_before toks a b =
     (count_list toks b < count_list toks a \<or>
      (count_list toks a = count_list toks b \<and> first_index toks a < first_index toks b))"

section \<open>\<open>CONLL2000.parse_entries\<close>\<close>














section \<open>\<open>CONLL2000.create_char_features\<close>\<close>

text \<open>
  Modelled from the spec: \<open>pad_sentences\<close> of the neon library, which is not part of
  this repository. The padding helper makes every sequence exactly \<open>sentence_length\<close>
  long: a shorter one is padded with zeros on the left, of a longer one the last
  \<open>sentence_length\<close> entries are kept.
\<close>

definition pad_row :: "nat \<Rightarrow> nat list \<Rightarrow> nat list" where
  "pad_row n xs = replicate (n - length xs) 0 @ drop (length xs - n) xs"

definition pad_sentences :: "nat list list \<Rightarrow> nat \<Rightarrow> nat list list" where
  "pad_sentences sentences sentence_length = map (pad_row sentence_length) sentences"

text \<open>
  The state of the pass is the pair of \<open>char_dict\<close> and \<open>char_id\<close>. Lines 127 to 132:
  one character, its id and the updated state.
\<close>

type_synonym 'c char_state = "('c, nat) dict \<times> nat"

definition encode_char :: "'c char_state \<Rightarrow> 'c \<Rightarrow> 'c char_state \<times> nat" where
  "encode_char st c =
     (case st of (char_dict, char_id) \<Rightarrow>
        (case map_of char_dict c of
           None \<Rightarrow> ((dict_set c char_id char_dict, char_id + 1), char_id)
         | Some char_int \<Rightarrow> ((char_dict, char_id), char_int)))"

text \<open>Lines 125 to 133: the characters of a word, then the two sentinels around them.\<close>

fun encode_chars :: "'c char_state \<Rightarrow> 'c list \<Rightarrow> 'c char_state \<times> nat list" where
  "encode_chars st [] = (st, [])"
| "encode_chars st (c # cs) =
     (case encode_char st c of (st1, char_int) \<Rightarrow>
        (case encode_chars st1 cs of (st2, char_vector) \<Rightarrow> (st2, char_int # char_vector)))"

definition encode_word :: "'c char_state \<Rightarrow> 'c list \<Rightarrow> 'c char_state \<times> nat list" where
  "encode_word st w =
     (case encode_chars st w of (st1, char_vector) \<Rightarrow> (st1, [1] @ char_vector @ [2]))"

text \<open>Lines 123 to 134: the words of a sentence.\<close>

fun encode_words :: "'c char_state \<Rightarrow> 'c list list \<Rightarrow> 'c char_state \<times> nat list list" where
  "encode_words st [] = (st, [])"
| "encode_words st (w # ws) =
     (case encode_word st w of (st1, char_vector) \<Rightarrow>
        (case encode_words st1 ws of (st2, char_sents) \<Rightarrow> (st2, char_vector # char_sents)))"

text \<open>
  Lines 135 to 141: every word vector is padded to \<open>word_length\<close>; then the matrix is cut
  to its first \<open>sentence_length\<close> rows when it has more, and otherwise gets rows of zeros
  stacked on top.
\<close>

definition shape_sentence :: "nat \<Rightarrow> nat \<Rightarrow> nat list list \<Rightarrow> nat list list" where
  "shape_sentence sentence_length word_length char_sents =
     (let padded = pad_sentences char_sents word_length
      in if int sentence_length - int (length padded) < 0
         then take sentence_length padded
         else replicate (sentence_length - length padded) (replicate word_length 0) @ padded)"

text \<open>Lines 122 to 142: the sentences of the corpus, one matrix each.\<close>

fun encode_sentences ::
  "nat \<Rightarrow> nat \<Rightarrow> 'c char_state \<Rightarrow> 'c list list list \<Rightarrow> 'c char_state \<times> nat list list list" where
  "encode_sentences sentence_length word_length st [] = (st, [])"
| "encode_sentences sentence_length word_length st (s # ss) =
     (case encode_words st s of (st1, char_sents) \<Rightarrow>
        (case encode_sentences sentence_length word_length st1 ss of (st2, new_sentences) \<Rightarrow>
           (st2, shape_sentence sentence_length word_length char_sents # new_sentences)))"

text \<open>
  The method returns the array and leaves the dictionary in \<open>self.vocabs['char_rnn']\<close>;
  the model returns both.
\<close>

definition create_char_features ::
  "'c list list list \<Rightarrow> nat \<Rightarrow> nat \<Rightarrow> nat list list list \<times> ('c, nat) dict" where
  "create_char_features sentences sentence_length word_length =
     (case encode_sentences sentence_length word_length ([], 3) sentences of
        (st, new_sentences) \<Rightarrow> (new_sentences, fst st))"

text \<open>
  For stating the result: the state after the characters \<open>cs\<close> have gone by, and the
  vector of a word under a finished dictionary.
\<close>

definition add_char :: "'c \<Rightarrow> 'c char_state \<Rightarrow> 'c char_state" where
  "add_char c st = fst (encode_char st c)"

definition scan_chars :: "'c char_state \<Rightarrow> 'c list \<Rightarrow> 'c char_state" where
  "scan_chars st cs = fold add_char cs st"

definition word_vector :: "('c, nat) dict \<Rightarrow> 'c list \<Rightarrow> nat list" where
  "word_vector d w = [1] @ map (\<lambda>c. dict_get d c 0) w @ [2]"

definition corpus_chars :: "'c list list list \<Rightarrow> 'c list" where
  "corpus_chars sentences = concat (concat sentences)"

section \<open>Properties of the dictionary operations\<close>

lemma map_of_dict_set: "map_of (dict_set k v d) = (map_of d)(k \<mapsto> v)"
  by (simp add: dict_set_def update_conv')

lemma keys_dict_set:
  "map fst (dict_set k v d) = (if k \<in> set (map fst d) then map fst d else map fst d @ [k])"
  by (simp add: dict_set_def update_keys)

lemma distinct_dict_set: "distinct (map fst d) \<Longrightarrow> distinct (map fst (dict_set k v d))"
  by (simp add: dict_set_def distinct_update)

section \<open>The counting pass\<close>

lemma fold_concat_acc: "fold f (concat xss) d = fold (\<lambda>xs. fold f xs) xss d"
  by (induction xss arbitrary: d) auto

lemma count_words_fold:
  "count_words lower lowercase texts = fold bump (token_stream lower lowercase texts) []"
proof -
  have "count_word lower lowercase = bump \<circ> (\<lambda>w. if lowercase then lower w else w)"
    by (auto simp: fun_eq_iff count_word_def bump_def Let_def)
  then show ?thesis
    by (simp add: count_words_def token_stream_def fold_map fold_concat_acc)
qed

lemma first_index_less: "x \<in> set xs \<Longrightarrow> first_index xs x < length xs"
  unfolding first_index_def
  by (induction xs) auto

lemma first_index_append_old: "x \<in> set xs \<Longrightarrow> first_index (xs @ ys) x = first_index xs x"
  unfolding first_index_def by (simp add: takeWhile_append1)

lemma first_index_append_new: "x \<notin> set xs \<Longrightarrow> first_index (xs @ [x]) x = length xs"
  unfolding first_index_def by (induction xs) auto

lemma keys_bump: "map fst (bump w d) = (if w \<in> set (map fst d) then map fst d else map fst d @ [w])"
  by (simp add: bump_def keys_dict_set)

lemma keys_counts: "set (map fst (fold bump toks [])) = set toks"
  by (induction toks rule: rev_induct) (auto simp: keys_bump)

lemma distinct_counts: "distinct (map fst (fold bump toks []))"
  by (induction toks rule: rev_induct) (auto simp: keys_bump)

lemma map_of_counts:
  "map_of (fold bump toks []) w = (if w \<in> set toks then Some (count_list toks w) else None)"
proof (induction toks rule: rev_induct)
  case Nil
  then show ?case by simp
next
  case (snoc x xs)
  then show ?case
    by (auto simp: bump_def map_of_dict_set dict_get_def)
qed

lemma order_counts:
  "sorted_wrt (\<lambda>a b. first_index toks a < first_index toks b) (map fst (fold bump toks []))"
proof (induction toks rule: rev_induct)
  case Nil
  then show ?case by simp
next
  case (snoc x xs)
  let ?ks = "map fst (fold bump xs [])"
  have ks: "set ?ks = set xs" by (rule keys_counts)
  have old: "sorted_wrt (\<lambda>a b. first_index (xs @ [x]) a < first_index (xs @ [x]) b) ?ks"
    using snoc.IH
    by (rule sorted_wrt_mono_rel[rotated]) (use ks in \<open>auto simp: first_index_append_old\<close>)
  show ?case
  proof (cases "x \<in> set xs")
    case True
    then show ?thesis using old ks by (simp add: keys_bump)
  next
    case False
    then show ?thesis using old ks
      by (auto simp: keys_bump sorted_wrt_append first_index_append_old first_index_append_new
          first_index_less)
  qed
qed

section \<open>Stable descending sort and the vocabulary\<close>

lemma insort_key_rank:
  fixes f :: "'a \<Rightarrow> 'k::linorder"
  assumes "sorted_wrt (\<lambda>a b. f a < f b \<or> (f a = f b \<and> Q a b)) ys"
    and "\<And>y. y \<in> set ys \<Longrightarrow> Q x y"
  shows "sorted_wrt (\<lambda>a b. f a < f b \<or> (f a = f b \<and> Q a b)) (insort_key f x ys)"
  using assms
proof (induction ys)
  case Nil
  then show ?case by simp
next
  case (Cons y ys)
  show ?case
  proof (cases "f x \<le> f y")
    case True
    have "f x < f z \<or> (f x = f z \<and> Q x z)" if "z \<in> set (y # ys)" for z
    proof -
      have "f y \<le> f z" using that Cons.prems(1) by auto
      then have "f x \<le> f z" using True by simp
      then show ?thesis using Cons.prems(2)[OF that] by auto
    qed
    then show ?thesis using True Cons.prems(1) by simp
  next
    case False
    then have "sorted_wrt (\<lambda>a b. f a < f b \<or> (f a = f b \<and> Q a b)) (insort_key f x ys)"
      using Cons by simp
    then show ?thesis using False Cons.prems(1) by (auto simp: set_insort_key)
  qed
qed

lemma sort_key_rank:
  fixes f :: "'a \<Rightarrow> 'k::linorder"
  shows "sorted_wrt Q xs \<Longrightarrow>
    sorted_wrt (\<lambda>a b. f a < f b \<or> (f a = f b \<and> Q a b)) (sort_key f xs)"
  by (induction xs) (auto intro: insort_key_rank)

lemma sorted_reverse_rank:
  fixes f :: "'a \<Rightarrow> 'k::linorder"
  assumes "sorted_wrt Q xs"
  shows "sorted_wrt (\<lambda>a b. f b < f a \<or> (f a = f b \<and> Q a b)) (sorted_reverse f xs)"
proof -
  have "sorted_wrt (\<lambda>a b. Q b a) (rev xs)"
    using assms by (simp add: sorted_wrt_rev)
  then have "sorted_wrt (\<lambda>a b. f a < f b \<or> (f a = f b \<and> Q b a)) (sort_key f (rev xs))"
    by (rule sort_key_rank)
  then have "sorted_wrt (\<lambda>b a. f a < f b \<or> (f a = f b \<and> Q b a)) (sorted_reverse f xs)"
    by (simp add: sorted_reverse_def sorted_wrt_rev)
  then show ?thesis
    by (rule sorted_wrt_mono_rel[rotated]) auto
qed

lemma set_sorted_reverse: "set (sorted_reverse f xs) = set xs"
  by (simp add: sorted_reverse_def)

lemma length_sorted_reverse: "length (sorted_reverse f xs) = length xs"
  by (simp add: sorted_reverse_def)

lemma distinct_keys_sorted_reverse:
  "distinct (map fst xs) \<Longrightarrow> distinct (map fst (sorted_reverse f xs))"
  by (simp add: distinct_map sorted_reverse_def)

lemma fold_dict_set_fresh:
  "distinct (map snd itw) \<Longrightarrow> set (map snd itw) \<inter> set (map fst acc) = {} \<Longrightarrow>
   fold (\<lambda>(i, w) vocab. dict_set w i vocab) itw acc = acc @ map (\<lambda>(i, w). (w, i)) itw"
proof (induction itw arbitrary: acc)
  case Nil
  then show ?case by simp
next
  case (Cons p itw)
  obtain i w where p: "p = (i, w)" by (cases p)
  have fresh: "w \<notin> set (map fst acc)" using Cons.prems(2) p by auto
  have step: "dict_set w i acc = acc @ [(w, i)]"
    using fresh unfolding dict_set_def by (induction acc) auto
  have "fold (\<lambda>(i, w) vocab. dict_set w i vocab) itw (acc @ [(w, i)])
        = (acc @ [(w, i)]) @ map (\<lambda>(i, w). (w, i)) itw"
    using Cons.prems p by (intro Cons.IH) auto
  then show ?case using p step by simp
qed

lemma make_vocab_int_to_word:
  assumes "distinct (map fst d)"
  shows "make_vocab (int_to_word d) = zip (map fst (sorted_reverse snd d)) [0..<length d]"
proof -
  let ?items = "sorted_reverse snd d"
  have itw: "int_to_word d = zip [0..<length d] (map fst ?items)"
    by (simp add: int_to_word_def enumerate_eq_zip length_sorted_reverse zip_map2 case_prod_unfold)
  have "map snd (int_to_word d) = map fst ?items"
    by (simp add: itw length_sorted_reverse)
  then have "distinct (map snd (int_to_word d))"
    using assms by (simp add: distinct_keys_sorted_reverse)
  then have "make_vocab (int_to_word d) = map (\<lambda>(i, w). (w, i)) (int_to_word d)"
    unfolding make_vocab_def by (subst fold_dict_set_fresh) auto
  also have "\<dots> = zip (map fst ?items) [0..<length d]"
    unfolding itw by (simp add: zip_commute[of "map fst ?items"] case_prod_unfold)
  finally show ?thesis .
qed

lemma length_counts: "length (fold bump toks []) = card (set toks)"
proof -
  have "length (fold bump toks []) = length (map fst (fold bump toks []))" by simp
  also have "\<dots> = card (set (map fst (fold bump toks [])))"
    using distinct_counts by (rule distinct_card[symmetric])
  finally show ?thesis by (simp only: keys_counts)
qed

lemma counts_item: "(k, c) \<in> set (fold bump toks []) \<Longrightarrow> c = count_list toks k"
proof -
  assume a: "(k, c) \<in> set (fold bump toks [])"
  then have "map_of (fold bump toks []) k = Some c"
    using distinct_counts[of toks] by (simp add: map_of_eq_Some_iff)
  then show ?thesis by (simp add: map_of_counts split: if_splits)
qed

lemma built_vocab_zip:
  "built_vocab lower lowercase texts =
     zip (map fst (sorted_reverse snd (fold bump (token_stream lower lowercase texts) [])))
         [0..<card (set (token_stream lower lowercase texts))]"
  unfolding built_vocab_def count_words_fold
  by (simp add: make_vocab_int_to_word distinct_counts length_counts)

lemma built_vocab_ids:
  "map snd (built_vocab lower lowercase texts) = [0..<card (set (token_stream lower lowercase texts))]"
  by (simp add: built_vocab_zip length_sorted_reverse length_counts)

lemma built_vocab_keys:
  "map fst (built_vocab lower lowercase texts) =
     map fst (sorted_reverse snd (fold bump (token_stream lower lowercase texts) []))"
  by (simp add: built_vocab_zip length_sorted_reverse length_counts)

lemma built_vocab_key_set:
  "set (map fst (built_vocab lower lowercase texts)) = set (token_stream lower lowercase texts)"
  unfolding built_vocab_keys using keys_counts[of "token_stream lower lowercase texts"]
  by (simp add: set_sorted_reverse)

lemma built_vocab_distinct: "distinct (map fst (built_vocab lower lowercase texts))"
  unfolding built_vocab_keys by (rule distinct_keys_sorted_reverse) (rule distinct_counts)

lemma built_vocab_ranked:
  "sorted_wrt (ranked_before (token_stream lower lowercase texts))
     (map fst (built_vocab lower lowercase texts))"
proof -
  let ?toks = "token_stream lower lowercase texts"
  let ?d = "fold bump ?toks []"
  have "sorted_wrt (\<lambda>a b. first_index ?toks (fst a) < first_index ?toks (fst b)) ?d"
    using order_counts[of ?toks] by (simp add: sorted_wrt_map)
  then have "sorted_wrt (\<lambda>a b. snd b < snd a \<or>
       (snd a = snd b \<and> first_index ?toks (fst a) < first_index ?toks (fst b)))
       (sorted_reverse snd ?d)"
    by (rule sorted_reverse_rank)
  then have "sorted_wrt (\<lambda>a b. ranked_before ?toks (fst a) (fst b)) (sorted_reverse snd ?d)"
  proof (rule sorted_wrt_mono_rel[rotated])
    fix a b
    assume a: "a \<in> set (sorted_reverse snd ?d)" and b: "b \<in> set (sorted_reverse snd ?d)"
      and r: "snd b < snd a \<or>
       (snd a = snd b \<and> first_index ?toks (fst a) < first_index ?toks (fst b))"
    have "snd a = count_list ?toks (fst a)"
      using a counts_item[of "fst a" "snd a" ?toks] by (simp add: set_sorted_reverse)
    moreover have "snd b = count_list ?toks (fst b)"
      using b counts_item[of "fst b" "snd b" ?toks] by (simp add: set_sorted_reverse)
    ultimately show "ranked_before ?toks (fst a) (fst b)"
      using r by (auto simp: ranked_before_def)
  qed
  then show ?thesis by (simp add: built_vocab_keys sorted_wrt_map)
qed

lemma map_result_ok:
  "(\<And>x. x \<in> set xs \<Longrightarrow> f x = Inr (g x)) \<Longrightarrow> map_result f xs = Inr (map g xs)"
  by (induction xs) simp_all

lemma map_result_error:
  "map_result f xs = Inl e \<Longrightarrow> \<exists>x \<in> set xs. f x = Inl e"
proof (induction xs)
  case Nil
  then show ?case by simp
next
  case (Cons x xs)
  show ?case
  proof (cases "f x")
    case (Inl e')
    then show ?thesis using Cons.prems by simp
  next
    case (Inr y)
    then have "map_result f xs = Inl e"
      using Cons.prems by (cases "map_result f xs") simp_all
    then show ?thesis using Cons.IH by simp
  qed
qed

lemma map_result_fails:
  "x \<in> set xs \<Longrightarrow> f x = Inl e \<Longrightarrow> \<exists>e'. map_result f xs = Inl e'"
proof (induction xs)
  case Nil
  then show ?case by simp
next
  case (Cons a xs)
  show ?case
  proof (cases "f a")
    case (Inl e')
    then show ?thesis by simp
  next
    case (Inr y)
    then have "x \<in> set xs" using Cons.prems by auto
    then obtain e' where "map_result f xs = Inl e'" using Cons.IH Cons.prems(2) by blast
    then show ?thesis using Inr by simp
  qed
qed

lemma lookup_word_known:
  assumes "w \<in> set (concat texts)"
  shows "lookup_word lower lowercase (built_vocab lower lowercase texts) w =
         Inr (the (map_of (built_vocab lower lowercase texts) (if lowercase then lower w else w)))"
proof -
  let ?V = "built_vocab lower lowercase texts"
  let ?n = "\<lambda>w. if lowercase then lower w else w"
  have "?n w \<in> ?n ` set (concat texts)"
    using assms by (rule imageI)
  then have "?n w \<in> set (token_stream lower lowercase texts)"
    by (simp only: token_stream_def set_map)
  then have "?n w \<in> set (map fst ?V)"
    by (simp only: built_vocab_key_set)
  then have "?n w \<in> dom (map_of ?V)"
    by (simp only: dom_map_of_conv_image_fst set_map)
  then obtain i where i: "map_of ?V (?n w) = Some i"
    by (auto simp only: dom_def)
  show ?thesis
  proof (cases lowercase)
    case True
    then show ?thesis using i by (simp add: lookup_word_def dict_index_def)
  next
    case False
    then show ?thesis using i by (simp add: lookup_word_def dict_index_def)
  qed
qed

lemma sentences_to_ints_result:
  "sentences_to_ints lower texts lowercase =
     Inr (map (map (\<lambda>w. the (map_of (built_vocab lower lowercase texts)
                                (if lowercase then lower w else w)))) texts,
          built_vocab lower lowercase texts)"
proof -
  let ?V = "built_vocab lower lowercase texts"
  let ?g = "\<lambda>w. the (map_of ?V (if lowercase then lower w else w))"
  have sens: "map_result (lookup_word lower lowercase ?V) sen = Inr (map ?g sen)"
    if "sen \<in> set texts" for sen
  proof (rule map_result_ok)
    fix w assume "w \<in> set sen"
    then have "w \<in> set (concat texts)" using that by auto
    then show "lookup_word lower lowercase ?V w = Inr (?g w)" by (rule lookup_word_known)
  qed
  have "map_ids lower lowercase ?V texts = Inr (map (map ?g) texts)"
    unfolding map_ids_def by (rule map_result_ok[where g = "map ?g"]) (rule sens)
  then have "map_ids lower lowercase (make_vocab (int_to_word (count_words lower lowercase texts)))
      texts = Inr (map (map ?g) texts)"
    by (simp only: built_vocab_def)
  then show ?thesis
    unfolding sentences_to_ints_def Let_def by (simp add: built_vocab_def)
qed

lemma zip_upt_lookup:
  "map_of (zip ks [0..<length ks]) w = Some i \<Longrightarrow> i < length ks \<and> ks ! i = w"
proof -
  assume "map_of (zip ks [0..<length ks]) w = Some i"
  then have "(w, i) \<in> set (zip ks [0..<length ks])" by (rule map_of_SomeD)
  then obtain j where "j < length ks" "ks ! j = w" "[0..<length ks] ! j = i"
    by (auto simp: set_zip)
  then show ?thesis by simp
qed

lemma built_vocab_first:
  assumes "map_of (built_vocab lower lowercase texts) w = Some 0"
  shows "count_list (token_stream lower lowercase texts) w' \<le>
         count_list (token_stream lower lowercase texts) w"
proof -
  let ?toks = "token_stream lower lowercase texts"
  let ?V = "built_vocab lower lowercase texts"
  let ?ks = "map fst ?V"
  have len: "length ?ks = card (set ?toks)"
    using built_vocab_ids[of lower lowercase texts]
    by (metis length_map length_upt minus_nat.diff_0)
  have V: "?V = zip ?ks [0..<length ?ks]"
    using built_vocab_ids[of lower lowercase texts] len
    by (metis zip_map_fst_snd)
  have "map_of (zip ?ks [0..<length ?ks]) w = Some 0"
    using assms V by simp
  then have w: "0 < length ?ks" "?ks ! 0 = w"
    using zip_upt_lookup[of ?ks w 0] by simp_all
  show ?thesis
  proof (cases "w' \<in> set ?toks")
    case False
    then show ?thesis by (simp add: count_list_0_iff)
  next
    case True
    then have "w' \<in> set ?ks" by (simp only: built_vocab_key_set)
    then obtain j where j: "j < length ?ks" "?ks ! j = w'"
      by (auto simp: in_set_conv_nth)
    show ?thesis
    proof (cases "j = 0")
      case True
      then show ?thesis using j w by simp
    next
      case False
      then have "0 < j" by simp
      then have "ranked_before ?toks (?ks ! 0) (?ks ! j)"
        using j(1) by (rule sorted_wrt_nth_less[OF built_vocab_ranked])
      then show ?thesis using j w by (auto simp: ranked_before_def)
    qed
  qed
qed

section \<open>Claims about \<open>_sentences_to_ints\<close>\<close>

text \<open>
  Claim C1. For every collection of sentences and either value of \<open>lowercase\<close>,
  \<open>_sentences_to_ints\<close> returns a vocabulary whose ids are exactly \<open>0, 1, ..., N - 1\<close>
  in dictionary order, \<open>N\<close> being the number of distinct (case-folded) tokens; its keys
  are those tokens, each once; they are ordered by descending number of occurrences,
  tokens with equal counts in the order in which they are first met; and the token
  holding id \<open>0\<close> occurs at least as often as any other.
\<close>

theorem sentences_to_ints_vocab_ranked:
  "\<exists>ids vocab. sentences_to_ints lower texts lowercase = Inr (ids, vocab)
     \<and> map snd vocab = [0..<card (set (token_stream lower lowercase texts))]
     \<and> set (map fst vocab) = set (token_stream lower lowercase texts)
     \<and> distinct (map fst vocab)
     \<and> sorted_wrt (ranked_before (token_stream lower lowercase texts)) (map fst vocab)
     \<and> (\<forall>w w'. map_of vocab w = Some 0 \<longrightarrow>
           count_list (token_stream lower lowercase texts) w'
             \<le> count_list (token_stream lower lowercase texts) w)"
  using built_vocab_ids[of lower lowercase texts] built_vocab_key_set[of lower lowercase texts]
    built_vocab_distinct[of lower lowercase texts] built_vocab_ranked[of lower lowercase texts]
    built_vocab_first[of lower lowercase texts]
  by (simp only: sentences_to_ints_result) blast

theorem sentences_to_ints_vocab_ranked_witness:
  "sentences_to_ints ascii_lower [[''The'', ''cat'', ''the''], [''Dog'', ''dog'', ''the'']] True
     = Inr ([[0, 2, 0], [1, 1, 0]], [(''the'', 0), (''dog'', 1), (''cat'', 2)])
   \<and> (\<exists>ids vocab.
        sentences_to_ints ascii_lower [[''The'', ''cat'', ''the''], [''Dog'', ''dog'', ''the'']] True
          = Inr (ids, vocab)
      \<and> map snd vocab = [0..<card (set (token_stream ascii_lower True
            [[''The'', ''cat'', ''the''], [''Dog'', ''dog'', ''the'']]))]
      \<and> set (map fst vocab) = set (token_stream ascii_lower True
            [[''The'', ''cat'', ''the''], [''Dog'', ''dog'', ''the'']])
      \<and> distinct (map fst vocab)
      \<and> sorted_wrt (ranked_before (token_stream ascii_lower True
            [[''The'', ''cat'', ''the''], [''Dog'', ''dog'', ''the'']])) (map fst vocab)
      \<and> (\<forall>w w'. map_of vocab w = Some 0 \<longrightarrow>
            count_list (token_stream ascii_lower True
              [[''The'', ''cat'', ''the''], [''Dog'', ''dog'', ''the'']]) w'
            \<le> count_list (token_stream ascii_lower True
              [[''The'', ''cat'', ''the''], [''Dog'', ''dog'', ''the'']]) w))"
proof -
  have ev: "sentences_to_ints ascii_lower
      [[''The'', ''cat'', ''the''], [''Dog'', ''dog'', ''the'']] True
     = Inr ([[0, 2, 0], [1, 1, 0]], [(''the'', 0), (''dog'', 1), (''cat'', 2)])"
    by code_simp
  show ?thesis
    using ev sentences_to_ints_vocab_ranked
      [of ascii_lower "[[''The'', ''cat'', ''the''], [''Dog'', ''dog'', ''the'']]" True]
    by (rule conjI)
qed

text \<open>
  Claim C9. \<open>_sentences_to_ints\<close> never raises a lookup error: the counting pass and the
  id-mapping pass fold the case of the same tokens in the same way, so every key looked
  up was inserted, and the call returns a result for every input.
\<close>

theorem sentences_to_ints_never_raises:
  "sentences_to_ints lower texts lowercase \<noteq> Inl e \<and>
   (\<exists>ids vocab. sentences_to_ints lower texts lowercase = Inr (ids, vocab))"
  by (simp add: sentences_to_ints_result)

theorem sentences_to_ints_never_raises_witness:
  "sentences_to_ints ascii_lower [[''The'', ''the'']] True \<noteq> Inl KeyError \<and>
   sentences_to_ints ascii_lower [[''The'', ''the'']] True = Inr ([[0, 0]], [(''the'', 0)])"
proof -
  have ev: "sentences_to_ints ascii_lower [[''The'', ''the'']] True = Inr ([[0, 0]], [(''the'', 0)])"
    by code_simp
  show ?thesis
    using sentences_to_ints_never_raises[of ascii_lower "[[''The'', ''the'']]" True KeyError] ev
    by simp
qed

text \<open>
  Claim C3. If some token met by the id-mapping pass (lines 252 and 253) is, after the
  case folding of that pass, not a key of the vocabulary table it is run against, the
  pass ends in \<open>KeyError\<close>, a \<open>LookupError\<close>, and yields no id sequences.
\<close>

theorem map_ids_missing_key:
  assumes "sen \<in> set texts" and "w \<in> set sen"
    and "map_of vocab (if lowercase then lower w else w) = None"
  shows "map_ids lower lowercase vocab texts = Inl KeyError"
proof -
  have lw: "lookup_word lower lowercase vocab w = Inl KeyError"
    using assms(3) by (cases lowercase) (simp_all add: lookup_word_def dict_index_def)
  have only: "e = KeyError" if "lookup_word lower lowercase vocab v = Inl e" for v e
    using that by (cases lowercase) (auto simp: lookup_word_def dict_index_def split: option.splits)
  obtain e1 where "map_result (lookup_word lower lowercase vocab) sen = Inl e1"
    using map_result_fails[of w sen "lookup_word lower lowercase vocab" KeyError] assms(2) lw
    by blast
  then obtain e2 where e2: "map_ids lower lowercase vocab texts = Inl e2"
    unfolding map_ids_def
    using map_result_fails[of sen texts "map_result (lookup_word lower lowercase vocab)" e1] assms(1)
    by blast
  then obtain s where "map_result (lookup_word lower lowercase vocab) s = Inl e2"
    unfolding map_ids_def using map_result_error by fast
  then obtain v where "lookup_word lower lowercase vocab v = Inl e2"
    using map_result_error by fast
  then have "e2 = KeyError" by (rule only)
  then show ?thesis using e2 by simp
qed

theorem map_ids_missing_key_witness:
  "[''The''] \<in> set [[''The'']] \<and> ''The'' \<in> set [''The'']
   \<and> map_of [(''The'', 0::nat)] (if True then ascii_lower ''The'' else ''The'') = None
   \<and> map_ids ascii_lower True [(''The'', 0)] [[''The'']] = Inl KeyError"
proof -
  have h1: "[''The''] \<in> set [[''The'']]" by simp
  have h2: "''The'' \<in> set [''The'']" by simp
  have h3: "map_of [(''The'', 0::nat)] (if True then ascii_lower ''The'' else ''The'') = None"
    by code_simp
  show ?thesis
    using h1 h2 h3
      map_ids_missing_key[of "[''The'']" "[[''The'']]" "''The''" "[(''The'', 0)]" True ascii_lower]
    by (intro conjI) blast+
qed

section \<open>The corpus parser\<close>





















section \<open>Claims about \<open>parse_entries\<close>\<close>





section \<open>The character vocabulary\<close>

lemma dict_set_fresh: "k \<notin> fst ` set d \<Longrightarrow> dict_set k v d = d @ [(k, v)]"
  unfolding dict_set_def by (induction d) auto

lemma add_char_eq:
  "add_char c (d, n) = (if c \<in> fst ` set d then (d, n) else (d @ [(c, n)], n + 1))"
proof (cases "map_of d c")
  case None
  then have "c \<notin> fst ` set d" by (simp add: map_of_eq_None_iff)
  then show ?thesis by (simp add: None add_char_def encode_char_def dict_set_fresh)
next
  case (Some i)
  then have "c \<in> fst ` set d" by (metis map_of_eq_None_iff option.distinct(1))
  then show ?thesis by (simp add: Some add_char_def encode_char_def)
qed

lemma encode_char_eq: "encode_char st c = (add_char c st, dict_get (fst (add_char c st)) c 0)"
proof -
  obtain d n where st: "st = (d, n)" by (cases st)
  show ?thesis
  proof (cases "map_of d c")
    case None
    then have "c \<notin> fst ` set d" by (simp add: map_of_eq_None_iff)
    then show ?thesis
      unfolding st
      by (simp add: None add_char_def encode_char_def dict_set_fresh dict_get_def map_add_def)
  next
    case (Some i)
    show ?thesis unfolding st by (simp add: Some add_char_def encode_char_def dict_get_def)
  qed
qed

lemma keys_add_char: "fst ` set (fst (add_char c st)) = insert c (fst ` set (fst st))"
  by (cases st) (auto simp: add_char_eq)

lemma stable_add_char:
  "k \<in> fst ` set (fst st) \<Longrightarrow> map_of (fst (add_char c st)) k = map_of (fst st) k"
proof -
  assume k: "k \<in> fst ` set (fst st)"
  obtain d n where st: "st = (d, n)" by (cases st)
  have "map_of d k \<noteq> None" using k unfolding st by (simp add: map_of_eq_None_iff)
  then show ?thesis unfolding st by (auto simp: add_char_eq map_add_def split: option.splits)
qed

lemma scan_chars_Nil: "scan_chars st [] = st"
  by (simp add: scan_chars_def)

lemma scan_chars_Cons: "scan_chars st (c # cs) = scan_chars (add_char c st) cs"
  by (simp add: scan_chars_def)

lemma scan_chars_append: "scan_chars st (xs @ ys) = scan_chars (scan_chars st xs) ys"
  by (simp add: scan_chars_def)

lemma keys_scan_chars: "fst ` set (fst (scan_chars st cs)) = fst ` set (fst st) \<union> set cs"
proof (induction cs arbitrary: st)
  case Nil
  then show ?case by (simp add: scan_chars_Nil)
next
  case (Cons c cs)
  show ?case
    unfolding scan_chars_Cons Cons.IH[of "add_char c st"] keys_add_char by auto
qed

lemma stable_scan_chars:
  "k \<in> fst ` set (fst st) \<Longrightarrow> map_of (fst (scan_chars st cs)) k = map_of (fst st) k"
proof (induction cs arbitrary: st)
  case Nil
  then show ?case by (simp add: scan_chars_Nil)
next
  case (Cons c cs)
  have "k \<in> fst ` set (fst (add_char c st))"
    using Cons.prems by (simp add: keys_add_char)
  then have "map_of (fst (scan_chars (add_char c st) cs)) k = map_of (fst (add_char c st)) k"
    by (rule Cons.IH)
  then show ?case using Cons.prems by (simp add: scan_chars_Cons stable_add_char)
qed

lemma stable_dict_get:
  "k \<in> fst ` set (fst st) \<Longrightarrow> dict_get (fst (scan_chars st cs)) k v = dict_get (fst st) k v"
  by (simp add: dict_get_def stable_scan_chars)

lemma stable_word_vector:
  "set w \<subseteq> fst ` set (fst st) \<Longrightarrow>
   word_vector (fst (scan_chars st cs)) w = word_vector (fst st) w"
  unfolding word_vector_def using stable_dict_get[of _ st cs 0] by (auto simp: subset_iff)

lemma encode_chars_eq:
  "encode_chars st w = (scan_chars st w, map (\<lambda>c. dict_get (fst (scan_chars st w)) c 0) w)"
proof (induction w arbitrary: st)
  case Nil
  then show ?case by (simp add: scan_chars_Nil)
next
  case (Cons c cs)
  have "c \<in> fst ` set (fst (add_char c st))" by (simp add: keys_add_char)
  then have "dict_get (fst (scan_chars (add_char c st) cs)) c 0
             = dict_get (fst (add_char c st)) c 0"
    by (rule stable_dict_get)
  then show ?case by (simp add: encode_char_eq Cons.IH scan_chars_Cons)
qed

lemma encode_word_eq:
  "encode_word st w = (scan_chars st w, word_vector (fst (scan_chars st w)) w)"
  by (simp add: encode_word_def encode_chars_eq word_vector_def)

lemma encode_words_eq:
  "encode_words st ws =
     (scan_chars st (concat ws), map (word_vector (fst (scan_chars st (concat ws)))) ws)"
proof (induction ws arbitrary: st)
  case Nil
  then show ?case by (simp add: scan_chars_Nil)
next
  case (Cons w ws)
  have "set w \<subseteq> fst ` set (fst (scan_chars st w))"
    by (simp add: keys_scan_chars)
  then have "word_vector (fst (scan_chars (scan_chars st w) (concat ws))) w
             = word_vector (fst (scan_chars st w)) w"
    by (rule stable_word_vector)
  then show ?case by (simp add: encode_word_eq Cons.IH scan_chars_append)
qed

lemma encode_sentences_eq:
  "encode_sentences sl wl st ss =
     (scan_chars st (concat (concat ss)),
      map (\<lambda>s. shape_sentence sl wl
                 (map (word_vector (fst (scan_chars st (concat (concat ss))))) s)) ss)"
proof (induction ss arbitrary: st)
  case Nil
  then show ?case by (simp add: scan_chars_Nil)
next
  case (Cons s ss)
  have eq: "map (word_vector (fst (scan_chars (scan_chars st (concat s)) (concat (concat ss))))) s
        = map (word_vector (fst (scan_chars st (concat s)))) s"
  proof (rule map_cong[OF refl])
    fix w assume "w \<in> set s"
    then have "set w \<subseteq> fst ` set (fst (scan_chars st (concat s)))"
      by (auto simp: keys_scan_chars)
    then show "word_vector (fst (scan_chars (scan_chars st (concat s)) (concat (concat ss)))) w
               = word_vector (fst (scan_chars st (concat s))) w"
      by (rule stable_word_vector)
  qed
  show ?case by (simp add: encode_words_eq Cons.IH scan_chars_append eq)
qed

lemma scan_chars_snoc: "scan_chars st (cs @ [c]) = add_char c (scan_chars st cs)"
  by (simp add: scan_chars_def)

lemma scan_chars_ids:
  "map snd (fst (scan_chars ([], 3) cs)) = [3..<snd (scan_chars ([], 3) cs)]
   \<and> snd (scan_chars ([], 3) cs) = 3 + length (fst (scan_chars ([], 3) cs))"
proof (induction cs rule: rev_induct)
  case Nil
  then show ?case by (simp add: scan_chars_Nil)
next
  case (snoc c cs)
  obtain d n where dn: "scan_chars ([], 3) cs = (d, n)" by (cases "scan_chars ([], 3) cs")
  then have ih: "map snd d = [3..<n]" "n = 3 + length d" using snoc.IH by simp_all
  show ?case
  proof (cases "c \<in> fst ` set d")
    case True
    then show ?thesis using ih by (simp add: scan_chars_snoc dn add_char_eq)
  next
    case False
    have "3 \<le> n" using ih(2) by simp
    then have "[3..<Suc n] = [3..<n] @ [n]" by (rule upt_Suc_append)
    then show ?thesis using False ih by (simp add: scan_chars_snoc dn add_char_eq)
  qed
qed

lemma scan_chars_key_set: "set (map fst (fst (scan_chars ([], 3) cs))) = set cs"
  using keys_scan_chars[of "([], 3)" cs] by simp

lemma scan_chars_distinct: "distinct (map fst (fst (scan_chars ([], 3) cs)))"
proof (induction cs rule: rev_induct)
  case Nil
  then show ?case by (simp add: scan_chars_Nil)
next
  case (snoc c cs)
  obtain d n where dn: "scan_chars ([], 3) cs = (d, n)" by (cases "scan_chars ([], 3) cs")
  then have "distinct (map fst d)" using snoc.IH by simp
  then show ?case by (auto simp: scan_chars_snoc dn add_char_eq)
qed

lemma scan_chars_order:
  "sorted_wrt (\<lambda>a b. first_index cs a < first_index cs b) (map fst (fst (scan_chars ([], 3) cs)))"
proof (induction cs rule: rev_induct)
  case Nil
  then show ?case by (simp add: scan_chars_Nil)
next
  case (snoc c cs)
  obtain d n where dn: "scan_chars ([], 3) cs = (d, n)" by (cases "scan_chars ([], 3) cs")
  have ks: "fst ` set d = set cs" using scan_chars_key_set[of cs] dn by simp
  have "sorted_wrt (\<lambda>a b. first_index cs a < first_index cs b) (map fst d)"
    using snoc.IH dn by simp
  then have old: "sorted_wrt (\<lambda>a b. first_index (cs @ [c]) a < first_index (cs @ [c]) b) (map fst d)"
    by (rule sorted_wrt_mono_rel[rotated]) (use ks in \<open>auto simp: first_index_append_old\<close>)
  show ?case
  proof (cases "c \<in> set cs")
    case True
    then show ?thesis using old ks by (simp add: scan_chars_snoc dn add_char_eq)
  next
    case False
    then show ?thesis using old ks
      by (auto simp: scan_chars_snoc dn add_char_eq sorted_wrt_append first_index_append_old
          first_index_append_new first_index_less)
  qed
qed

lemma scan_chars_length: "length (fst (scan_chars ([], 3) cs)) = card (set cs)"
proof -
  have "length (fst (scan_chars ([], 3) cs)) = length (map fst (fst (scan_chars ([], 3) cs)))"
    by simp
  also have "\<dots> = card (set (map fst (fst (scan_chars ([], 3) cs))))"
    using scan_chars_distinct by (rule distinct_card[symmetric])
  finally show ?thesis by (simp only: scan_chars_key_set)
qed

lemma create_char_features_eq:
  "create_char_features sentences sl wl =
     (map (\<lambda>s. shape_sentence sl wl
                 (map (word_vector (fst (scan_chars ([], 3) (corpus_chars sentences)))) s))
        sentences,
      fst (scan_chars ([], 3) (corpus_chars sentences)))"
  by (simp add: create_char_features_def encode_sentences_eq corpus_chars_def)




lemma shape_sentence_long:
  "sl < length vs \<Longrightarrow> shape_sentence sl wl vs = take sl (pad_sentences vs wl)"
  by (simp add: shape_sentence_def pad_sentences_def Let_def)

section \<open>Claims about \<open>create_char_features\<close>\<close>

text \<open>
  Claim C7. \<open>create_char_features\<close> numbers the characters from 3 upwards in the order in
  which its single pass over the corpus first meets them, whatever their frequency: the
  ids in the dictionary are \<open>3, 4, ..., N + 2\<close> for the \<open>N\<close> distinct characters, each
  character is a key once, and the keys are in order of first occurrence. The ids 0, 1
  and 2 are given to no character; every word is encoded as 1, the ids of its characters
  and 2, and that vector is what the per-word padding receives.
\<close>

theorem create_char_features_first_encounter_ids:
  "map snd (snd (create_char_features sentences sl wl))
     = [3..<3 + card (set (corpus_chars sentences))]
   \<and> set (map fst (snd (create_char_features sentences sl wl))) = set (corpus_chars sentences)
   \<and> distinct (map fst (snd (create_char_features sentences sl wl)))
   \<and> sorted_wrt (\<lambda>a b. first_index (corpus_chars sentences) a
                          < first_index (corpus_chars sentences) b)
        (map fst (snd (create_char_features sentences sl wl)))
   \<and> fst (create_char_features sentences sl wl)
     = map (\<lambda>s. shape_sentence sl wl
                 (map (word_vector (snd (create_char_features sentences sl wl))) s)) sentences"
proof -
  let ?cs = "corpus_chars sentences"
  have "map snd (fst (scan_chars ([], 3) ?cs)) = [3..<3 + card (set ?cs)]"
    using scan_chars_ids[of ?cs] by (simp add: scan_chars_length)
  then show ?thesis
    using scan_chars_key_set[of ?cs] scan_chars_distinct[of ?cs] scan_chars_order[of ?cs]
    by (simp add: create_char_features_eq)
qed

theorem create_char_features_first_encounter_ids_witness:
  "create_char_features [[''bab'', ''cab'']] 3 5
     = ([[[0, 0, 0, 0, 0], [1, 3, 4, 3, 2], [1, 5, 4, 3, 2]]],
        [(CHR ''b'', 3), (CHR ''a'', 4), (CHR ''c'', 5)])
   \<and> map snd (snd (create_char_features [[''bab'', ''cab'']] 3 5))
     = [3..<3 + card (set (corpus_chars [[''bab'', ''cab'']]))]"
proof -
  have ev: "create_char_features [[''bab'', ''cab'']] 3 5
     = ([[[0, 0, 0, 0, 0], [1, 3, 4, 3, 2], [1, 5, 4, 3, 2]]],
        [(CHR ''b'', 3), (CHR ''a'', 4), (CHR ''c'', 5)])"
    by code_simp
  have "map snd (snd (create_char_features [[''bab'', ''cab'']] 3 5))
     = [3..<3 + card (set (corpus_chars [[''bab'', ''cab'']]))]"
    using create_char_features_first_encounter_ids[of "[[''bab'', ''cab'']]" 3 5]
    by (elim conjE)
  then show ?thesis using ev by (intro conjI)
qed



text \<open>
  Claim C2 says that a sentence with more words than \<open>sentence_length\<close> keeps its last
  \<open>sentence_length\<close> word rows. Line 137 slices \<open>char_sents[:sentence_length]\<close>: the
  leading rows are kept and the trailing words are dropped. For the sentence a, b, c and
  two rows the output holds the rows of a and b; the claim asks for those of b and c.
\<close>

theorem create_char_features_keeps_leading_rows:
  "fst (create_char_features [[''a'', ''b'', ''c'']] 2 3) = [[[1, 3, 2], [1, 4, 2]]]
   \<and> fst (create_char_features [[''a'', ''b'', ''c'']] 2 3) \<noteq> [[[1, 4, 2], [1, 5, 2]]]
   \<and> snd (create_char_features [[''a'', ''b'', ''c'']] 2 3)
     = [(CHR ''a'', 3), (CHR ''b'', 4), (CHR ''c'', 5)]"
  by code_simp

end
